theory Spec2Isabelle
  imports Main "HOL-Library.Word" "HOL-Library.Monad_Syntax"
begin

unbundle bit_operations_syntax

section \<open>The bit register of bitlib.h\<close>

text \<open>
  \<^verbatim>\<open>typedef unsigned long long int bit;\<close> is a 64-bit unsigned word, and
  \<^verbatim>\<open>size_t\<close> (indices and shift amounts) is an unsigned 64-bit word as well (LP64),
  so that \<^verbatim>\<open>BIT_SIZE - n\<close> wraps around as it does in C.

  Every function of the header is a pure function of its arguments. The only thing a
  call can do besides returning a value is to run into undefined behaviour of C:
  a shift \<^verbatim>\<open>b << n\<close> or \<^verbatim>\<open>b >> n\<close> whose amount is not smaller than the
  width of \<^verbatim>\<open>b\<close> (C11, 6.5.7 paragraph 3), or a store outside an allocated block.
  Such a call has the result \<open>None\<close>; \<open>Some v\<close> is a call that returns \<open>v\<close>.
\<close>

type_synonym bit = "64 word"
type_synonym size_t = "64 word"

definition BIT_SIZE :: size_t where
  "BIT_SIZE = 64"

subsection \<open>Shifts and the boolean operators\<close>

definition Bit_shiftLeft :: "bit \<Rightarrow> size_t \<Rightarrow> bit option" where
  "Bit_shiftLeft b n = (if n < BIT_SIZE then Some (push_bit (unat n) b) else None)"

definition Bit_shiftRight :: "bit \<Rightarrow> size_t \<Rightarrow> bit option" where
  "Bit_shiftRight b n = (if n < BIT_SIZE then Some (drop_bit (unat n) b) else None)"

definition Bit_OR :: "bit \<Rightarrow> bit \<Rightarrow> bit" where
  "Bit_OR b1 b2 = b1 OR b2"

definition Bit_XOR :: "bit \<Rightarrow> bit \<Rightarrow> bit" where
  "Bit_XOR b1 b2 = b1 XOR b2"

definition Bit_AND :: "bit \<Rightarrow> bit \<Rightarrow> bit" where
  "Bit_AND b1 b2 = b1 AND b2"

subsection \<open>Single-bit masks, mutators and accessors\<close>

text \<open>\<^verbatim>\<open>n = (n < 1 ? 1 : n > BIT_SIZE ? BIT_SIZE : n); return Bit_shiftLeft(1, --n);\<close>\<close>

definition Bit_mask1 :: "size_t \<Rightarrow> bit option" where
  "Bit_mask1 n =
     (let n1 = (if n < 1 then 1 else if n > BIT_SIZE then BIT_SIZE else n)
      in Bit_shiftLeft 1 (n1 - 1))"

definition Bit_turnOn :: "bit \<Rightarrow> size_t \<Rightarrow> bit option" where
  "Bit_turnOn b n = do { m \<leftarrow> Bit_mask1 n; Some (Bit_OR b m) }"

definition Bit_turnOff :: "bit \<Rightarrow> size_t \<Rightarrow> bit option" where
  "Bit_turnOff b n = do { m \<leftarrow> Bit_mask1 n; Some (Bit_AND b (NOT m)) }"

definition Bit_toggle :: "bit \<Rightarrow> size_t \<Rightarrow> bit option" where
  "Bit_toggle b n = do { m \<leftarrow> Bit_mask1 n; Some (Bit_XOR b m) }"

definition Bit_get :: "bit \<Rightarrow> size_t \<Rightarrow> bool option" where
  "Bit_get b n = do { m \<leftarrow> Bit_mask1 n; Some (Bit_AND b m \<noteq> 0) }"

definition Bit_toggleAll :: "bit \<Rightarrow> bit" where
  "Bit_toggleAll b = NOT b"

subsection \<open>Filters and sections\<close>

definition Bit_filterLeft :: "bit \<Rightarrow> size_t \<Rightarrow> bit option" where
  "Bit_filterLeft b n =
     do { x \<leftarrow> Bit_shiftRight b (BIT_SIZE - n); Bit_shiftLeft x (BIT_SIZE - n) }"

definition Bit_filterRight :: "bit \<Rightarrow> size_t \<Rightarrow> bit option" where
  "Bit_filterRight b n =
     do { x \<leftarrow> Bit_shiftLeft b (BIT_SIZE - n); Bit_shiftRight x (BIT_SIZE - n) }"

definition Bit_filterSectionIncl :: "bit \<Rightarrow> size_t \<Rightarrow> size_t \<Rightarrow> bit option" where
  "Bit_filterSectionIncl b from to =
     do { x \<leftarrow> Bit_filterRight b to; Bit_filterLeft x (BIT_SIZE - from) }"

definition Bit_getSection :: "bit \<Rightarrow> size_t \<Rightarrow> size_t \<Rightarrow> bit option" where
  "Bit_getSection b from to =
     do { x \<leftarrow> Bit_filterSectionIncl b from to; Bit_shiftRight x from }"

subsection \<open>Serial input and the two consuming operations\<close>

text \<open>The enumeration \<^verbatim>\<open>bool\<close> converts to the register values 0 and 1.\<close>

definition Bit_addRight :: "bit \<Rightarrow> bool \<Rightarrow> bit option" where
  "Bit_addRight b add = do { x \<leftarrow> Bit_shiftLeft b 1; Some (Bit_OR x (of_bool add)) }"

definition Bit_addBitsLeft :: "bit \<Rightarrow> bit \<Rightarrow> size_t \<Rightarrow> bit option" where
  "Bit_addBitsLeft b left n =
     do { x \<leftarrow> Bit_shiftRight b n;
          l \<leftarrow> Bit_filterRight left n;
          y \<leftarrow> Bit_shiftLeft l (BIT_SIZE - n);
          Some (Bit_OR x y) }"

definition Bit_addBitsRight :: "bit \<Rightarrow> bit \<Rightarrow> size_t \<Rightarrow> bit option" where
  "Bit_addBitsRight b right n =
     do { x \<leftarrow> Bit_shiftLeft b n;
          r \<leftarrow> Bit_filterRight right n;
          Some (Bit_OR x r) }"

text \<open>
  \<^verbatim>\<open>bool r = Bit_get(*b, 1); *b >>= 1; return r;\<close>
  The register behind the pointer is returned next to the bit that was removed.
\<close>

definition Bit_getAndRemoveRight :: "bit \<Rightarrow> (bool \<times> bit) option" where
  "Bit_getAndRemoveRight b = do { r \<leftarrow> Bit_get b 1; Some (r, drop_bit 1 b) }"

definition Bit_getAndRemoveLeft :: "bit \<Rightarrow> (bool \<times> bit) option" where
  "Bit_getAndRemoveLeft b = do { r \<leftarrow> Bit_get b BIT_SIZE; Some (r, push_bit 1 b) }"

subsection \<open>Reversal and rotation\<close>

text \<open>
  \<^verbatim>\<open>size_t i = BIT_SIZE; bit rev = 0;
  while (i--) rev = Bit_addRight(rev, Bit_getAndRemoveRight(&b));\<close>
  The counter only runs from \<^verbatim>\<open>BIT_SIZE\<close> down to 0, so it is a natural number here.
\<close>

fun reverse_loop :: "nat \<Rightarrow> bit \<Rightarrow> bit \<Rightarrow> bit option" where
  "reverse_loop 0 b rv = Some rv"
| "reverse_loop (Suc i) b rv =
     do { (r, b') \<leftarrow> Bit_getAndRemoveRight b;
          rv' \<leftarrow> Bit_addRight rv r;
          reverse_loop i b' rv' }"

definition Bit_reverse :: "bit \<Rightarrow> bit option" where
  "Bit_reverse b = reverse_loop (unat BIT_SIZE) b 0"

definition Bit_rotateLeft :: "bit \<Rightarrow> size_t \<Rightarrow> bit option" where
  "Bit_rotateLeft b n =
     do { s \<leftarrow> Bit_getSection b (BIT_SIZE - n) BIT_SIZE; Bit_addBitsRight b s n }"

definition Bit_rotateRight :: "bit \<Rightarrow> size_t \<Rightarrow> bit option" where
  "Bit_rotateRight b n =
     do { s \<leftarrow> Bit_getSection b 0 n; Bit_addBitsLeft b s n }"

subsection \<open>Counting\<close>

text \<open>
  \<^verbatim>\<open>size_t i = 0; while (b) if (Bit_getAndRemoveRight(&b)) i++; return i;\<close>
  The loop runs as long as the register is not zero; each round halves it.
\<close>

function count1_loop :: "bit \<Rightarrow> size_t \<Rightarrow> size_t option" where
  "count1_loop b i =
     (if b \<noteq> 0
      then do { (r, b') \<leftarrow> Bit_getAndRemoveRight b;
                count1_loop b' (if r then i + 1 else i) }
      else Some i)"
  by pat_completeness auto
termination
proof (relation "measure (\<lambda>(b, i). unat b)")
  show "wf (measure (\<lambda>(b :: bit, i :: size_t). unat b))"
    by simp
next
  fix b :: bit and i :: size_t and x :: "bool \<times> bit" and r :: bool and b' :: bit
  assume "b \<noteq> 0" and "Bit_getAndRemoveRight b = Some x" and "(r, b') = x"
  then have "b' = drop_bit 1 b"
    by (auto simp: Bit_getAndRemoveRight_def Bit_get_def Bit_mask1_def Bit_shiftLeft_def
        BIT_SIZE_def Let_def split: if_splits)
  moreover have "unat (drop_bit 1 b) = unat b div 2"
    by (simp only: unat_drop_bit_eq) (simp add: drop_bit_eq_div)
  moreover from \<open>b \<noteq> 0\<close> have "unat b \<noteq> 0"
    by (simp add: unat_eq_0)
  ultimately show "((b', if r then i + 1 else i), (b, i)) \<in> measure (\<lambda>(b, i). unat b)"
    by simp
qed

definition Bit_count1 :: "bit \<Rightarrow> size_t option" where
  "Bit_count1 b = count1_loop b 0"

subsection \<open>Text conversion\<close>

text \<open>
  A \<^verbatim>\<open>char*\<close> points to a block of bytes. A block is the list of its bytes, each one
  either written (\<open>Some c\<close>) or still indeterminate (\<open>None\<close>), as \<^verbatim>\<open>malloc\<close> returns
  them; the allocation is taken to succeed. A store outside the block and a read of a
  byte that is outside the block or indeterminate are undefined behaviour. A string
  literal is the block of its characters followed by the terminating zero byte.
\<close>

type_synonym block = "char option list"

definition malloc :: "nat \<Rightarrow> block" where
  "malloc n = replicate n None"

definition store :: "block \<Rightarrow> nat \<Rightarrow> char \<Rightarrow> block option" where
  "store s i c = (if i < length s then Some (s[i := Some c]) else None)"

definition literal :: "string \<Rightarrow> block" where
  "literal cs = map Some cs @ [Some (CHR 0x00)]"

text \<open>
  \<^verbatim>\<open>while (s[i] != '\0') { if (s[i] == '1' || s[i] == '0') b = Bit_addRight(b, s[i] - '0'); i++; }\<close>
  The argument of the loop is the rest of the block from index \<open>i\<close> on.
\<close>

fun fromStringMSB_loop :: "block \<Rightarrow> bit \<Rightarrow> bit option" where
  "fromStringMSB_loop [] b = None"
| "fromStringMSB_loop (None # s) b = None"
| "fromStringMSB_loop (Some c # s) b =
     (if c = CHR 0x00 then Some b
      else if c = CHR ''1'' \<or> c = CHR ''0''
      then do { b' \<leftarrow> Bit_addRight b (c = CHR ''1''); fromStringMSB_loop s b' }
      else fromStringMSB_loop s b)"

definition Bit_fromStringMSB :: "block \<Rightarrow> bit option" where
  "Bit_fromStringMSB s = fromStringMSB_loop s 0"

definition Bit_fromStringLSB :: "block \<Rightarrow> bit option" where
  "Bit_fromStringLSB s = do { b \<leftarrow> Bit_fromStringMSB s; Bit_reverse b }"

text \<open>
  \<^verbatim>\<open>size_t i = BIT_SIZE;
  char* s = (char*) malloc(i * sizeof(char));
  s[i] = '\0';
  while (i--) s[i] = (Bit_getAndRemoveRight(&b) ? '1' : '0');
  return s;\<close>
  \<open>toStringBinMSB_in\<close> is the body of the function after the allocation, on the block
  that the allocation returned.
\<close>

fun toStringBin_loop :: "nat \<Rightarrow> bit \<Rightarrow> block \<Rightarrow> block option" where
  "toStringBin_loop 0 b s = Some s"
| "toStringBin_loop (Suc i) b s =
     do { (r, b') \<leftarrow> Bit_getAndRemoveRight b;
          s' \<leftarrow> store s i (if r then CHR ''1'' else CHR ''0'');
          toStringBin_loop i b' s' }"

definition toStringBinMSB_in :: "block \<Rightarrow> bit \<Rightarrow> block option" where
  "toStringBinMSB_in s b =
     do { s' \<leftarrow> store s (unat BIT_SIZE) (CHR 0x00);
          toStringBin_loop (unat BIT_SIZE) b s' }"

definition Bit_toStringBinMSB :: "bit \<Rightarrow> block option" where
  "Bit_toStringBinMSB b = toStringBinMSB_in (malloc (unat BIT_SIZE * 1)) b"

definition Bit_toStringBinLSB :: "bit \<Rightarrow> block option" where
  "Bit_toStringBinLSB b = do { r \<leftarrow> Bit_reverse b; Bit_toStringBinMSB r }"

subsection \<open>Hexadecimal output\<close>

text \<open>
  \<^verbatim>\<open>printf("%#018llX", b);\<close>
  \<^verbatim>\<open>printf\<close> belongs to the C library, not to the header. The conversion is modelled
  from ISO C, 7.21.6.1: \<^verbatim>\<open>X\<close> writes the value in hexadecimal with the letters
  \<^verbatim>\<open>ABCDEF\<close> and at least one digit; with the flag \<^verbatim>\<open>#\<close> a nonzero result has
  \<^verbatim>\<open>0X\<close> prefixed to it; with the flag \<^verbatim>\<open>0\<close> leading zeros, placed after the
  indication of the base, pad the output to the field width 18. The console is the
  text written so far.
\<close>

definition hex_digit :: "nat \<Rightarrow> char" where
  "hex_digit d = ''0123456789ABCDEF'' ! (d mod 16)"

fun hex_upper :: "nat \<Rightarrow> string" where
  "hex_upper n = (if n < 16 then [hex_digit n] else hex_upper (n div 16) @ [hex_digit n])"

definition printf_alt_zero_18_llX :: "64 word \<Rightarrow> string" where
  "printf_alt_zero_18_llX v =
     (let digits = hex_upper (unat v);
          base = (if v \<noteq> 0 then ''0X'' else [])
      in base @ replicate (18 - (length base + length digits)) (CHR ''0'') @ digits)"

definition Bit_printHex :: "bit \<Rightarrow> string \<Rightarrow> string" where
  "Bit_printHex b console = console @ printf_alt_zero_18_llX b"

subsection \<open>Auxiliary notions for the statements\<close>

text \<open>
  The index that \<open>Bit_mask1\<close> really uses, counted from 0: position \<open>n\<close> of the
  header (1 is the least significant bit) is bit \<open>n - 1\<close> of the word, and indices
  outside \<open>[1, BIT_SIZE]\<close> go to the nearest boundary.
\<close>

definition clamp0 :: "size_t \<Rightarrow> nat" where
  "clamp0 n = (if n < 1 then 0 else if 64 < n then 63 else unat n - 1)"

section \<open>Basic facts\<close>

lemma shiftLeft_Some: "n < 64 \<Longrightarrow> Bit_shiftLeft b n = Some (push_bit (unat n) b)"
  by (simp add: Bit_shiftLeft_def BIT_SIZE_def)

lemma shiftRight_Some: "n < 64 \<Longrightarrow> Bit_shiftRight b n = Some (drop_bit (unat n) b)"
  by (simp add: Bit_shiftRight_def BIT_SIZE_def)

lemma shiftLeft_None: "64 \<le> n \<Longrightarrow> Bit_shiftLeft b n = None"
  by (simp add: Bit_shiftLeft_def BIT_SIZE_def not_less)

lemma shiftRight_None: "64 \<le> n \<Longrightarrow> Bit_shiftRight b n = None"
  by (simp add: Bit_shiftRight_def BIT_SIZE_def not_less)

lemma clamp0_less: "clamp0 n < 64"
  by (auto simp: clamp0_def not_less word_le_nat_alt)

lemma mask1_Some: "Bit_mask1 n = Some (push_bit (clamp0 n) 1)"
proof -
  consider "n = 0" | "64 < n" | "1 \<le> n" "n \<le> 64"
    by (metis not_less word_less_1)
  then show ?thesis
  proof cases
    case 1
    then show ?thesis
      by (simp add: Bit_mask1_def BIT_SIZE_def clamp0_def shiftLeft_Some)
  next
    case 2
    then have "n \<noteq> 0"
      by auto
    with 2 show ?thesis
      by (simp add: Bit_mask1_def BIT_SIZE_def clamp0_def shiftLeft_Some)
  next
    case 3
    then have u: "1 \<le> unat n" "unat n \<le> 64"
      by (simp_all add: word_le_nat_alt)
    have s: "unat (n - 1) = unat n - 1"
      using 3(1) by (simp add: unat_sub)
    have "n - 1 < 64"
      using u s by (simp add: word_less_nat_alt)
    moreover have "n \<noteq> 0" "\<not> 64 < n"
      using 3 by auto
    ultimately show ?thesis
      using s by (simp add: Bit_mask1_def BIT_SIZE_def clamp0_def shiftLeft_Some)
  qed
qed

lemma bit_mask1: "bit (push_bit (clamp0 n) (1 :: bit)) i \<longleftrightarrow> i = clamp0 n"
  using clamp0_less [of n] by (auto simp: bit_simps)

lemma clamp0_in_range: "1 \<le> n \<Longrightarrow> n \<le> 64 \<Longrightarrow> Suc (clamp0 n) = unat n"
  by (auto simp: clamp0_def word_le_nat_alt word_less_nat_alt)

lemma get_Some: "Bit_get b n = Some (bit b (clamp0 n))"
  by (simp add: Bit_get_def mask1_Some Bit_AND_def bit_iff_and_push_bit_not_eq_0)

lemma turnOn_Some: "Bit_turnOn b n = Some (b OR push_bit (clamp0 n) 1)"
  by (simp add: Bit_turnOn_def mask1_Some Bit_OR_def)

lemma turnOff_Some: "Bit_turnOff b n = Some (b AND NOT (push_bit (clamp0 n) 1))"
  by (simp add: Bit_turnOff_def mask1_Some Bit_AND_def)

lemma toggle_Some: "Bit_toggle b n = Some (b XOR push_bit (clamp0 n) 1)"
  by (simp add: Bit_toggle_def mask1_Some Bit_XOR_def)

text \<open>
  Claim C7. For every index \<open>n\<close>, \<open>Bit_mask1 n\<close> returns a register with exactly one
  bit set: at position \<open>n\<close> when \<open>1 \<le> n \<le> BIT_SIZE\<close>, at position 1 when \<open>n < 1\<close> and
  at position \<open>BIT_SIZE\<close> when \<open>n > BIT_SIZE\<close> (position \<open>p\<close> is bit \<open>p - 1\<close> of the
  word); in particular \<open>mask1(0) = mask1(1)\<close> and \<open>mask1(N + 5) = mask1(N)\<close>.
\<close>

theorem mask1_single_bit:
  "(\<exists>m. Bit_mask1 n = Some m \<and>
      (\<forall>i. bit m i \<longleftrightarrow>
         Suc i = (if n < 1 then 1 else if BIT_SIZE < n then unat BIT_SIZE else unat n)))
   \<and> Bit_mask1 0 = Bit_mask1 1
   \<and> Bit_mask1 (BIT_SIZE + 5) = Bit_mask1 BIT_SIZE"
proof -
  have "Suc (clamp0 n) = (if n < 1 then 1 else if BIT_SIZE < n then unat BIT_SIZE else unat n)"
    by (auto simp: clamp0_def BIT_SIZE_def not_less word_le_nat_alt word_less_nat_alt)
  then have "\<forall>i. bit (push_bit (clamp0 n) (1 :: bit)) i \<longleftrightarrow>
         Suc i = (if n < 1 then 1 else if BIT_SIZE < n then unat BIT_SIZE else unat n)"
    by (metis bit_mask1 nat.inject)
  moreover have "Bit_mask1 0 = Bit_mask1 1"
    by (simp add: mask1_Some clamp0_def)
  moreover have "Bit_mask1 (BIT_SIZE + 5) = Bit_mask1 BIT_SIZE"
    by (simp add: mask1_Some clamp0_def BIT_SIZE_def)
  ultimately show ?thesis
    by (simp add: mask1_Some)
qed

text \<open>
  Claim C6 says that a shift by at least the word width yields 0. The header shifts with
  the C operators and no guard, so a shift by 64 has no defined result, in particular
  not the result 0.
\<close>

theorem shift_by_width_counterexample:
  "Bit_shiftLeft 1 64 \<noteq> Some 0 \<and> Bit_shiftRight 1 64 \<noteq> Some 0"
  by (simp add: Bit_shiftLeft_def Bit_shiftRight_def BIT_SIZE_def)

text \<open>
  Claim C6, amended. For \<open>n < BIT_SIZE\<close> both shifts return, \<open>Bit_shiftLeft\<close> the value
  \<open>b * 2 ^ n mod 2 ^ 64\<close> and \<open>Bit_shiftRight\<close> the value \<open>b div 2 ^ n\<close> (logical,
  zero-filling shifts); for \<open>n \<ge> BIT_SIZE\<close> neither shift has a defined result.
\<close>

theorem shift_below_width:
  "(n < BIT_SIZE \<longrightarrow>
      (\<exists>l r. Bit_shiftLeft b n = Some l \<and> Bit_shiftRight b n = Some r \<and>
         unat l = (unat b * 2 ^ unat n) mod 2 ^ 64 \<and> unat r = unat b div 2 ^ unat n))
   \<and> (BIT_SIZE \<le> n \<longrightarrow> Bit_shiftLeft b n = None \<and> Bit_shiftRight b n = None)"
proof -
  have "unat (push_bit (unat n) b) = (unat b * 2 ^ unat n) mod 2 ^ 64"
    by (simp only: unsigned_push_bit_eq) (simp add: push_bit_eq_mult take_bit_eq_mod)
  moreover have "unat (drop_bit (unat n) b) = unat b div 2 ^ unat n"
    by (simp only: unat_drop_bit_eq) (simp add: drop_bit_eq_div)
  ultimately show ?thesis
    by (auto simp: Bit_shiftLeft_def Bit_shiftRight_def)
qed

theorem shift_below_width_witness:
  "(3 :: size_t) < BIT_SIZE \<and> Bit_shiftLeft 5 3 = Some 40 \<and> Bit_shiftRight 5 3 = Some 0
   \<and> BIT_SIZE \<le> (70 :: size_t) \<and> Bit_shiftLeft 5 70 = None \<and> Bit_shiftRight 5 70 = None"
  using shift_below_width [of 3 5] shift_below_width [of 70 5]
  by (simp add: BIT_SIZE_def Bit_shiftLeft_def Bit_shiftRight_def)

text \<open>
  Claim C10. For indices \<open>n\<close>, \<open>m\<close> in \<open>[1, BIT_SIZE]\<close> with \<open>m \<noteq> n\<close>, reading bit
  \<open>m\<close> after \<open>Bit_turnOn\<close>, \<open>Bit_turnOff\<close> or \<open>Bit_toggle\<close> at \<open>n\<close> gives what reading
  bit \<open>m\<close> of the original register gives; all the calls involved return.
\<close>

theorem single_bit_frame:
  assumes "1 \<le> n" "n \<le> BIT_SIZE" "1 \<le> m" "m \<le> BIT_SIZE" "m \<noteq> n"
  shows "\<exists>v x y z. Bit_get b m = Some v
           \<and> Bit_turnOn b n = Some x \<and> Bit_get x m = Some v
           \<and> Bit_turnOff b n = Some y \<and> Bit_get y m = Some v
           \<and> Bit_toggle b n = Some z \<and> Bit_get z m = Some v"
proof -
  have "Suc (clamp0 n) = unat n" "Suc (clamp0 m) = unat m"
    using assms by (simp_all add: clamp0_in_range BIT_SIZE_def)
  with \<open>m \<noteq> n\<close> have ne: "clamp0 m \<noteq> clamp0 n"
    by (metis word_unat_eq_iff)
  have lt: "clamp0 m < 64"
    by (rule clamp0_less)
  have "bit (b OR push_bit (clamp0 n) 1) (clamp0 m) = bit b (clamp0 m)"
    using ne lt by (simp add: bit_simps)
  moreover have "bit (b AND NOT (push_bit (clamp0 n) 1)) (clamp0 m) = bit b (clamp0 m)"
    using ne lt by (simp add: bit_simps)
  moreover have "bit (b XOR push_bit (clamp0 n) 1) (clamp0 m) = bit b (clamp0 m)"
    using ne lt by (simp add: bit_simps)
  ultimately show ?thesis
    by (simp add: get_Some turnOn_Some turnOff_Some toggle_Some)
qed

theorem single_bit_frame_witness:
  "Bit_get 10 2 = Some True \<and>
   (Bit_turnOn 10 3 \<bind> (\<lambda>x. Bit_get x 2)) = Some True \<and>
   (Bit_turnOff 10 4 \<bind> (\<lambda>x. Bit_get x 2)) = Some True \<and>
   (Bit_toggle 10 1 \<bind> (\<lambda>x. Bit_get x 2)) = Some True"
  using single_bit_frame [of 3 2 10] single_bit_frame [of 4 2 10] single_bit_frame [of 1 2 10]
  by (auto simp: BIT_SIZE_def get_Some clamp0_def)

lemma getAndRemoveRight_Some: "Bit_getAndRemoveRight b = Some (bit b 0, drop_bit 1 b)"
  by (simp add: Bit_getAndRemoveRight_def get_Some clamp0_def)

lemma addRight_Some: "Bit_addRight b a = Some (push_bit 1 b OR of_bool a)"
  by (simp add: Bit_addRight_def shiftLeft_Some Bit_OR_def)

lemma bit_addRight:
  "bit (push_bit 1 rv OR of_bool c :: bit) j \<longleftrightarrow> (if j = 0 then c else j < 64 \<and> bit rv (j - 1))"
  by (simp only: bit_or_iff bit_push_bit_iff bit_of_bool_iff) auto

lemma reverse_loop_bits:
  "\<exists>r. reverse_loop k b rv = Some r \<and>
     (\<forall>j. bit r j \<longleftrightarrow> j < 64 \<and> (if j < k then bit b (k - 1 - j) else bit rv (j - k)))"
proof (induction k arbitrary: b rv)
  case 0
  then show ?case
    by (auto dest: bit_imp_le_length)
next
  case (Suc k)
  define b' where "b' = drop_bit 1 b"
  define rv' where "rv' = push_bit 1 rv OR of_bool (bit b 0)"
  have b': "bit b' j \<longleftrightarrow> bit b (Suc j)" for j
    by (simp add: b'_def bit_simps)
  have rv': "bit rv' j \<longleftrightarrow> (if j = 0 then bit b 0 else j < 64 \<and> bit rv (j - 1))" for j
    unfolding rv'_def by (rule bit_addRight)
  from Suc.IH [of b' rv'] obtain r where
    r: "reverse_loop k b' rv' = Some r"
    and bits: "\<And>j. bit r j \<longleftrightarrow> j < 64 \<and> (if j < k then bit b' (k - 1 - j) else bit rv' (j - k))"
    by blast
  have "bit r j \<longleftrightarrow> j < 64 \<and> (if j < Suc k then bit b (Suc k - 1 - j) else bit rv (j - Suc k))"
    for j
  proof (cases "j < k")
    case True
    then have "Suc (k - 1 - j) = k - j" by simp
    with True show ?thesis
      by (simp add: bits b')
  next
    case False
    then show ?thesis
      by (cases "j = k") (auto simp: bits rv')
  qed
  with r show ?case
    by (simp add: getAndRemoveRight_Some addRight_Some b'_def rv'_def)
qed

lemma reverse_Some: "Bit_reverse b = Some (word_reverse b)"
proof -
  from reverse_loop_bits [of 64 b 0] obtain r where
    r: "reverse_loop 64 b 0 = Some r"
    and bits: "\<And>j. bit r j \<longleftrightarrow> j < 64 \<and> (if j < 64 then bit b (64 - 1 - j) else bit (0 :: bit) (j - 64))"
    by blast
  have "r = word_reverse b"
    by (rule bit_word_eqI) (simp add: bits bit_simps)
  with r show ?thesis
    by (simp add: Bit_reverse_def BIT_SIZE_def)
qed

text \<open>
  Claim C5. For every register \<open>b\<close>, \<open>Bit_reverse\<close> returns, reversing the result gives
  \<open>b\<close> back, and for every index \<open>i\<close> in \<open>[1, BIT_SIZE]\<close> bit \<open>i\<close> of the reversal is bit
  \<open>BIT_SIZE + 1 - i\<close> of \<open>b\<close>. The statement is about every \<open>b\<close>, zero and all-ones included.
\<close>

theorem reverse_involution_mirror:
  "\<exists>r. Bit_reverse b = Some r \<and> Bit_reverse r = Some b \<and>
     (\<forall>i. 1 \<le> i \<and> i \<le> BIT_SIZE \<longrightarrow>
        (\<exists>v. Bit_get r i = Some v \<and> Bit_get b (BIT_SIZE + 1 - i) = Some v))"
proof -
  have "bit (word_reverse b) (clamp0 i) = bit b (clamp0 (BIT_SIZE + 1 - i))"
    if "1 \<le> i" "i \<le> BIT_SIZE" for i
  proof -
    from that have i: "1 \<le> unat i" "unat i \<le> 64"
      by (simp_all add: word_le_nat_alt BIT_SIZE_def)
    then have "unat (65 - i) = 65 - unat i"
      by (simp add: unat_sub word_le_nat_alt)
    with i have "clamp0 (65 - i) = 64 - unat i"
      by (simp add: clamp0_def word_less_nat_alt)
    moreover from i have "clamp0 i = unat i - 1"
      by (simp add: clamp0_def word_less_nat_alt)
    moreover from i have "unat i - 1 < 64" "64 - Suc (unat i - 1) = 64 - unat i"
      by simp_all
    ultimately show ?thesis
      by (simp add: bit_simps BIT_SIZE_def)
  qed
  then show ?thesis
    by (simp add: reverse_Some get_Some)
qed

theorem reverse_involution_mirror_witness:
  "Bit_reverse 5 = Some 0xA000000000000000 \<and> Bit_reverse 0xA000000000000000 = Some 5 \<and>
   (1 :: size_t) \<le> 62 \<and> 62 \<le> BIT_SIZE \<and>
   Bit_get 0xA000000000000000 62 = Some True \<and> Bit_get 5 (BIT_SIZE + 1 - 62) = Some True"
proof -
  have "Bit_reverse 5 = Some 0xA000000000000000" "Bit_reverse 0xA000000000000000 = Some 5"
    by code_simp+
  then show ?thesis
    using reverse_involution_mirror [of 5]
    by (simp add: BIT_SIZE_def get_Some clamp0_def)
qed

lemma unat_width_minus: "n \<le> 64 \<Longrightarrow> unat (BIT_SIZE - n) = 64 - unat n"
  by (simp add: BIT_SIZE_def unat_sub word_le_nat_alt)

lemma filterRight_Some:
  assumes "1 \<le> n" "n \<le> 64"
  shows "Bit_filterRight b n = Some (take_bit (unat n) b)"
proof -
  from assms have n: "1 \<le> unat n" "unat n \<le> 64"
    by (simp_all add: word_le_nat_alt)
  have k: "unat (BIT_SIZE - n) = 64 - unat n"
    using assms by (simp add: unat_width_minus)
  with n have lt: "BIT_SIZE - n < 64"
    by (simp add: word_less_nat_alt)
  have "drop_bit (64 - unat n) (push_bit (64 - unat n) b) = take_bit (unat n) b"
    using n by (intro bit_word_eqI) (auto simp: bit_simps)
  with k lt show ?thesis
    by (simp add: Bit_filterRight_def shiftLeft_Some shiftRight_Some)
qed

lemma filterLeft_complement:
  assumes "from < 64"
  shows "Bit_filterLeft b (BIT_SIZE - from) = Some (push_bit (unat from) (drop_bit (unat from) b))"
proof -
  have "BIT_SIZE - (BIT_SIZE - from) = from"
    by simp
  with assms show ?thesis
    by (simp add: Bit_filterLeft_def shiftLeft_Some shiftRight_Some)
qed

lemma filterSectionIncl_Some:
  assumes "from < 64" "1 \<le> to" "to \<le> 64"
  shows "Bit_filterSectionIncl b from to =
           Some (push_bit (unat from) (drop_bit (unat from) (take_bit (unat to) b)))"
  using assms by (simp add: Bit_filterSectionIncl_def filterRight_Some filterLeft_complement)

lemma getSection_Some:
  assumes "from < 64" "1 \<le> to" "to \<le> 64"
  shows "Bit_getSection b from to = Some (drop_bit (unat from) (take_bit (unat to) b))"
proof -
  have "drop_bit k (push_bit k (drop_bit k x)) = drop_bit k x" for k and x :: bit
    by (rule bit_word_eqI) (auto simp: bit_simps dest: bit_imp_le_length)
  then show ?thesis
    using assms by (simp add: Bit_getSection_def filterSectionIncl_Some shiftRight_Some)
qed

text \<open>
  Claim C1 says that \<open>getSection(b, from, to)\<close> keeps the bits \<open>from..to\<close> and shifts them
  right by \<open>from - 1\<close>, so that \<open>getSection(0b11110000, 5, 8) = 15\<close>. The code shifts by
  \<open>from\<close> and its filter drops bit \<open>from\<close> itself: the result is 7.
\<close>

theorem getSection_one_based_counterexample:
  "Bit_getSection 0b11110000 5 8 = Some 7 \<and> Bit_getSection 0b11110000 5 8 \<noteq> Some 15"
  by (simp add: getSection_Some)

text \<open>
  Claim C1, amended. For \<open>0 \<le> from < BIT_SIZE\<close> and \<open>1 \<le> to \<le> BIT_SIZE\<close>,
  \<open>Bit_filterSectionIncl\<close> keeps the bits of \<open>b\<close> at the positions \<open>from + 1 .. to\<close>
  (counted from 1; these are the bits \<open>from \<le> i < to\<close> of the word) and zeroes the rest,
  and \<open>Bit_getSection\<close> is that result shifted right by \<open>from\<close> positions, so that
  position \<open>from + 1\<close> of \<open>b\<close> becomes position 1 of the result.
\<close>

theorem getSection_bits:
  assumes "from < BIT_SIZE" "1 \<le> to" "to \<le> BIT_SIZE"
  shows "\<exists>s r. Bit_filterSectionIncl b from to = Some s \<and> Bit_getSection b from to = Some r
           \<and> (\<forall>i. bit s i \<longleftrightarrow> unat from \<le> i \<and> i < unat to \<and> bit b i)
           \<and> r = drop_bit (unat from) s
           \<and> (\<forall>i. bit r i \<longleftrightarrow> unat from + i < unat to \<and> bit b (unat from + i))"
proof -
  let ?s = "push_bit (unat from) (drop_bit (unat from) (take_bit (unat to) b))"
  let ?r = "drop_bit (unat from) (take_bit (unat to) b)"
  have "bit ?s i \<longleftrightarrow> unat from \<le> i \<and> i < unat to \<and> bit b i" for i
    by (auto simp: bit_simps dest: bit_imp_le_length)
  moreover have "?r = drop_bit (unat from) ?s"
    by (rule bit_word_eqI) (auto simp: bit_simps dest: bit_imp_le_length)
  moreover have "bit ?r i \<longleftrightarrow> unat from + i < unat to \<and> bit b (unat from + i)" for i
    by (auto simp: bit_simps)
  ultimately show ?thesis
    using assms by (simp add: filterSectionIncl_Some getSection_Some BIT_SIZE_def)
qed

theorem getSection_bits_witness:
  "(4 :: size_t) < BIT_SIZE \<and> (1 :: size_t) \<le> 8 \<and> (8 :: size_t) \<le> BIT_SIZE \<and>
   Bit_filterSectionIncl 0b11110000 4 8 = Some 0b11110000 \<and>
   Bit_getSection 0b11110000 4 8 = Some 15"
  using getSection_bits [of 4 8 "0b11110000"]
  by (simp add: BIT_SIZE_def filterSectionIncl_Some getSection_Some)

lemma addBitsLeft_Some:
  assumes "1 \<le> n" "n < 64"
  shows "Bit_addBitsLeft b l n =
           Some (drop_bit (unat n) b OR push_bit (64 - unat n) (take_bit (unat n) l))"
proof -
  from assms have le: "n \<le> 64"
    by simp
  from assms have n: "1 \<le> unat n" "unat n < 64"
    by (simp_all add: word_le_nat_alt word_less_nat_alt)
  have k: "unat (BIT_SIZE - n) = 64 - unat n"
    using le by (rule unat_width_minus)
  with n have "BIT_SIZE - n < 64"
    by (simp add: word_less_nat_alt)
  with assms le k show ?thesis
    by (simp add: Bit_addBitsLeft_def shiftRight_Some filterRight_Some shiftLeft_Some Bit_OR_def)
qed

lemma addBitsRight_Some:
  assumes "1 \<le> n" "n < 64"
  shows "Bit_addBitsRight b r n = Some (push_bit (unat n) b OR take_bit (unat n) r)"
  using assms
  by (simp add: Bit_addBitsRight_def shiftLeft_Some filterRight_Some Bit_OR_def)

lemma rotateRight_Some:
  assumes "1 \<le> n" "n < 64"
  shows "Bit_rotateRight b n = Some (word_rotr (unat n) b)"
proof -
  from assms have n: "1 \<le> unat n" "unat n < 64"
    by (simp_all add: word_le_nat_alt word_less_nat_alt)
  let ?n = "unat n"
  have "drop_bit ?n b OR push_bit (64 - ?n) (take_bit ?n (drop_bit 0 (take_bit ?n b)))
          = word_rotr ?n b"
  proof (rule bit_word_eqI)
    fix i assume "i < LENGTH(64)"
    then have i: "i < 64" by simp
    show "bit (drop_bit ?n b OR push_bit (64 - ?n) (take_bit ?n (drop_bit 0 (take_bit ?n b)))) i
            \<longleftrightarrow> bit (word_rotr ?n b) i"
    proof (cases "i + ?n < 64")
      case True
      with i n show ?thesis
        by (auto simp: bit_simps add.commute)
    next
      case False
      then have "(i + ?n) mod 64 = i + ?n - 64"
        using i n by (simp add: le_mod_geq)
      moreover have "i - (64 - ?n) = i + ?n - 64" "\<not> bit b (?n + i)"
        using False n i by (auto dest: bit_imp_le_length)
      ultimately show ?thesis
        using i n False by (auto simp: bit_simps)
    qed
  qed
  moreover have "(0 :: size_t) < 64"
    by simp
  moreover have "unat (0 :: size_t) = 0"
    by simp
  ultimately show ?thesis
    using assms
    by (simp add: Bit_rotateRight_def getSection_Some [of 0] addBitsLeft_Some)
qed

lemma rotateLeft_Some:
  assumes "1 \<le> n" "n < 64"
  shows "Bit_rotateLeft b n = Some (word_rotl (unat n) b)"
proof -
  from assms have le: "n \<le> 64"
    by simp
  from assms have n: "1 \<le> unat n" "unat n < 64"
    by (simp_all add: word_le_nat_alt word_less_nat_alt)
  let ?n = "unat n"
  have k: "unat (BIT_SIZE - n) = 64 - ?n"
    using le by (rule unat_width_minus)
  with n have lt: "BIT_SIZE - n < 64"
    by (simp add: word_less_nat_alt)
  have sec: "Bit_getSection b (BIT_SIZE - n) BIT_SIZE = Some (drop_bit (64 - ?n) (take_bit 64 b))"
    using getSection_Some [OF lt, of 64 b] k by (simp add: BIT_SIZE_def)
  have "push_bit ?n b OR take_bit ?n (drop_bit (64 - ?n) (take_bit 64 b)) = word_rotl ?n b"
  proof (rule bit_word_eqI)
    fix i assume "i < LENGTH(64)"
    then have i: "i < 64" by simp
    show "bit (push_bit ?n b OR take_bit ?n (drop_bit (64 - ?n) (take_bit 64 b))) i
            \<longleftrightarrow> bit (word_rotl ?n b) i"
    proof (cases "i < ?n")
      case True
      then have "(i + (64 - ?n)) mod 64 = 64 - ?n + i"
        using n by simp
      with True i n show ?thesis
        by (auto simp: bit_simps)
    next
      case False
      then have "(i + (64 - ?n)) mod 64 = i - ?n"
        using i n by (simp add: le_mod_geq)
      with False i n show ?thesis
        by (auto simp: bit_simps)
    qed
  qed
  with assms sec show ?thesis
    by (simp add: Bit_rotateLeft_def addBitsRight_Some)
qed

text \<open>
  For \<open>1 \<le> n \<le> BIT_SIZE - 1\<close> both rotations return, each undoes the other, and they
  are the rotations of the 64-bit word by \<open>n\<close> positions.
\<close>

lemma rotate_round_trip:
  assumes "1 \<le> n" "n < BIT_SIZE"
  shows "\<exists>x y. Bit_rotateRight b n = Some x \<and> Bit_rotateLeft x n = Some b
             \<and> Bit_rotateLeft b n = Some y \<and> Bit_rotateRight y n = Some b
             \<and> x = word_rotr (unat n) b \<and> y = word_rotl (unat n) b"
  using assms by (simp add: rotateRight_Some rotateLeft_Some BIT_SIZE_def)

lemma rotate_round_trip_example:
  "(1 :: size_t) \<le> 4 \<and> (4 :: size_t) < BIT_SIZE \<and>
   Bit_rotateRight 0xF1 4 = Some 0x100000000000000F \<and>
   Bit_rotateLeft 0x100000000000000F 4 = Some 0xF1 \<and>
   Bit_rotateLeft 0xF1 4 = Some 0xF10 \<and>
   Bit_rotateRight 0xF10 4 = Some 0xF1"
proof -
  have "Bit_rotateRight 0xF1 4 = Some 0x100000000000000F" "Bit_rotateLeft 0xF1 4 = Some 0xF10"
    by code_simp+
  then show ?thesis
    using rotate_round_trip [of 4 "0xF1"] by (simp add: BIT_SIZE_def)
qed

text \<open>
  Claim C2 says that the two rotations undo each other for every \<open>0 \<le> n \<le> N\<close> and that a
  rotation by 0 is the identity. That is what the header sets out to compute, and it does
  so for \<open>1 \<le> n \<le> N - 1\<close>. At the two ends of the range the code misses it: for \<open>n = 0\<close>
  \<open>Bit_rotateLeft\<close> evaluates \<open>Bit_filterLeft b 0\<close> and \<open>Bit_rotateRight\<close> evaluates
  \<open>Bit_filterRight b 0\<close>, each a shift by the full width, and for \<open>n = BIT_SIZE\<close> both
  shift the register itself by 64. These shifts are undefined behaviour in C, so for
  every register neither rotation, and hence neither round trip, has a defined result.
\<close>

theorem rotate_by_zero_or_width_undefined:
  "Bit_rotateLeft b 0 = None \<and> Bit_rotateRight b 0 = None \<and>
   Bit_rotateLeft b BIT_SIZE = None \<and> Bit_rotateRight b BIT_SIZE = None \<and>
   (Bit_rotateRight b 0 \<bind> (\<lambda>x. Bit_rotateLeft x 0)) \<noteq> Some b \<and>
   (Bit_rotateLeft b 0 \<bind> (\<lambda>x. Bit_rotateRight x 0)) \<noteq> Some b \<and>
   (Bit_rotateRight b BIT_SIZE \<bind> (\<lambda>x. Bit_rotateLeft x BIT_SIZE)) \<noteq> Some b \<and>
   (Bit_rotateLeft b BIT_SIZE \<bind> (\<lambda>x. Bit_rotateRight x BIT_SIZE)) \<noteq> Some b"
proof -
  have l0: "Bit_rotateLeft x 0 = None" for x
    by (simp add: Bit_rotateLeft_def Bit_getSection_def Bit_filterSectionIncl_def
        Bit_filterRight_def Bit_filterLeft_def Bit_shiftLeft_def Bit_shiftRight_def BIT_SIZE_def)
  have r0: "Bit_rotateRight x 0 = None" for x
    by (simp add: Bit_rotateRight_def Bit_getSection_def Bit_filterSectionIncl_def
        Bit_filterRight_def Bit_shiftLeft_def BIT_SIZE_def)
  have l64: "Bit_rotateLeft x BIT_SIZE = None" for x
    by (simp add: Bit_rotateLeft_def Bit_getSection_def Bit_filterSectionIncl_def
        Bit_filterRight_def Bit_filterLeft_def Bit_addBitsRight_def Bit_shiftLeft_def
        Bit_shiftRight_def BIT_SIZE_def)
  have r64: "Bit_rotateRight x BIT_SIZE = None" for x
    by (simp add: Bit_rotateRight_def Bit_getSection_def Bit_filterSectionIncl_def
        Bit_filterRight_def Bit_filterLeft_def Bit_addBitsLeft_def Bit_shiftLeft_def
        Bit_shiftRight_def BIT_SIZE_def)
  show ?thesis
    by (simp add: l0 r0 l64 r64)
qed

text \<open>The number of set bits of a register, as a sum over its 64 positions.\<close>

lemma popcount_step:
  "(\<Sum>j<64. of_bool (bit b j)) = of_bool (bit b 0) + (\<Sum>j<64. of_bool (bit (drop_bit 1 b) j) :: nat)"
  for b :: bit
proof -
  have "(\<Sum>j<Suc 63. of_bool (bit b j) :: nat) = of_bool (bit b 0) + (\<Sum>j<63. of_bool (bit b (Suc j)))"
    by (rule sum.lessThan_Suc_shift)
  moreover have "(\<Sum>j<Suc 63. of_bool (bit (drop_bit 1 b) j) :: nat)
      = (\<Sum>j<63. of_bool (bit (drop_bit 1 b) j)) + of_bool (bit (drop_bit 1 b) 63)"
    by (rule sum.lessThan_Suc)
  moreover have "\<not> bit (drop_bit 1 b) 63"
    by (auto simp: bit_simps dest: bit_imp_le_length)
  moreover have "bit (drop_bit 1 b) j = bit b (Suc j)" for j
    by (simp add: bit_simps)
  ultimately show ?thesis
    by (simp del: sum_of_bool_eq)
qed

lemma count1_loop_Some:
  "count1_loop b i = Some (i + of_nat (\<Sum>j<64. of_bool (bit b j)))"
proof (induction b i rule: count1_loop.induct)
  case (1 b i)
  show ?case
  proof (cases "b = 0")
    case True
    then show ?thesis by simp
  next
    case False
    let ?r = "bit b 0" and ?b = "drop_bit 1 b"
    have "count1_loop ?b (if ?r then i + 1 else i)
            = Some ((if ?r then i + 1 else i) + of_nat (\<Sum>j<64. of_bool (bit ?b j)))"
      using False by (intro "1.IH" [of "(?r, ?b)"]) (simp_all add: getAndRemoveRight_Some)
    moreover have "count1_loop b i = count1_loop ?b (if ?r then i + 1 else i)"
      using False by (subst count1_loop.simps) (simp add: getAndRemoveRight_Some)
    ultimately show ?thesis
      by (simp add: popcount_step [of b] del: count1_loop.simps sum_of_bool_eq)
  qed
qed

lemma popcount_complement:
  "(\<Sum>j<64. of_bool (bit b j)) + (\<Sum>j<64. of_bool (bit (NOT b) j)) = (64 :: nat)"
  for b :: bit
proof -
  have "(\<Sum>j<64. of_bool (bit b j)) + (\<Sum>j<64. of_bool (bit (NOT b) j))
      = (\<Sum>j<64. of_bool (bit b j) + of_bool (bit (NOT b) j) :: nat)"
    by (simp only: sum.distrib)
  also have "\<dots> = (\<Sum>j<(64 :: nat). (1 :: nat))"
    by (rule sum.cong) (auto simp: bit_simps)
  finally show ?thesis
    by simp
qed

text \<open>
  Claim C8. For every register \<open>b\<close>, \<open>Bit_count1\<close> returns on \<open>b\<close> and on its complement
  \<open>Bit_toggleAll b\<close>, and the two counts add up to the word width 64, as values of
  \<^verbatim>\<open>size_t\<close> and as numbers.
\<close>

theorem count1_complement:
  "\<exists>c d. Bit_count1 b = Some c \<and> Bit_count1 (Bit_toggleAll b) = Some d
         \<and> c + d = BIT_SIZE \<and> unat c + unat d = 64"
proof -
  let ?p = "\<Sum>j<64. of_bool (bit b j) :: nat" and ?q = "\<Sum>j<64. of_bool (bit (NOT b) j) :: nat"
  have pq: "?p + ?q = 64"
    by (rule popcount_complement)
  then have "?p \<le> 64" "?q \<le> 64"
    by linarith+
  then have u: "unat (of_nat ?p :: size_t) = ?p" "unat (of_nat ?q :: size_t) = ?q"
    by (simp_all only: unat_of_nat) simp_all
  have "(of_nat ?p :: size_t) + of_nat ?q = of_nat (?p + ?q)"
    by simp
  with pq have "(of_nat ?p :: size_t) + of_nat ?q = 64"
    by simp
  with u pq show ?thesis
    by (simp add: Bit_count1_def Bit_toggleAll_def count1_loop_Some BIT_SIZE_def
        del: count1_loop.simps sum_of_bool_eq)
qed

lemma store_outside: "length s \<le> i \<Longrightarrow> store s i c = None"
  by (simp add: store_def)

text \<open>
  Claim C3 says that parsing the string produced by the matching conversion gives the
  register back. \<open>Bit_toStringBinMSB\<close> allocates \<open>BIT_SIZE\<close> bytes and then stores the
  terminating zero at index \<open>BIT_SIZE\<close>, one byte behind the block; so for every
  register the conversion (and with it \<open>Bit_toStringBinLSB\<close>) has no defined result, and
  the round trip does not return the register.
\<close>

theorem toStringBin_store_outside_block:
  "Bit_toStringBinMSB b = None \<and> Bit_toStringBinLSB b = None
   \<and> (Bit_toStringBinMSB b \<bind> Bit_fromStringMSB) \<noteq> Some b
   \<and> (Bit_toStringBinLSB b \<bind> Bit_fromStringLSB) \<noteq> Some b"
proof -
  have "Bit_toStringBinMSB x = None" for x
    by (simp add: Bit_toStringBinMSB_def toStringBinMSB_in_def malloc_def store_def BIT_SIZE_def)
  then show ?thesis
    by (simp add: Bit_toStringBinLSB_def reverse_Some)
qed

text \<open>
  The defect is the size of the allocation alone. On a block that has room for the
  terminator (more than 64 bytes) the body of the conversion writes the 64 binary digits,
  most significant first, and both round trips give the register back.
\<close>

lemma drop_store:
  "k < length s \<Longrightarrow> drop k (s[k := x]) = x # drop (Suc k) s"
  by (simp add: upd_conv_take_nth_drop)

lemma toStringBin_loop_Some:
  "k \<le> length s \<Longrightarrow>
   toStringBin_loop k b s =
     Some (map (\<lambda>j. Some (if bit b (k - 1 - j) then CHR ''1'' else CHR ''0'')) [0..<k] @ drop k s)"
proof (induction k arbitrary: b s)
  case 0
  then show ?case by simp
next
  case (Suc k)
  define c where "c = (if bit b 0 then CHR ''1'' else CHR ''0'')"
  define s' where "s' = s[k := Some c]"
  from Suc.prems have k: "k < length s"
    by simp
  then have st: "store s k c = Some s'"
    by (simp add: store_def s'_def)
  have dr: "drop k s' = Some c # drop (Suc k) s"
    unfolding s'_def using k by (rule drop_store)
  have "k \<le> length s'"
    using k by (simp add: s'_def)
  from Suc.IH [OF this, of "drop_bit 1 b"]
  have "toStringBin_loop k (drop_bit 1 b) s' =
      Some (map (\<lambda>j. Some (if bit (drop_bit 1 b) (k - 1 - j) then CHR ''1'' else CHR ''0'')) [0..<k]
            @ Some c # drop (Suc k) s)"
    by (simp only: dr)
  moreover have "map (\<lambda>j. Some (if bit (drop_bit 1 b) (k - 1 - j) then CHR ''1'' else CHR ''0'')) [0..<k]
      = map (\<lambda>j. Some (if bit b (Suc k - 1 - j) then CHR ''1'' else CHR ''0'')) [0..<k]"
  proof (rule map_cong [OF refl])
    fix j assume "j \<in> set [0..<k]"
    then have "Suc (k - 1 - j) = Suc k - 1 - j"
      by auto
    then show "Some (if bit (drop_bit 1 b) (k - 1 - j) then CHR ''1'' else CHR ''0'')
        = Some (if bit b (Suc k - 1 - j) then CHR ''1'' else CHR ''0'')"
      by (simp add: bit_simps)
  qed
  ultimately show ?case
    using st by (simp add: getAndRemoveRight_Some c_def)
qed

lemma fromStringMSB_loop_digits:
  "fromStringMSB_loop (map (\<lambda>j. Some (if p j then CHR ''1'' else CHR ''0'')) js @ Some (CHR 0x00) # rest) acc
     = Some (foldl (\<lambda>a j. push_bit 1 a OR of_bool (p j)) acc js)"
  by (induction js arbitrary: acc) (simp_all add: addRight_Some)

lemma foldl_bits:
  "foldl (\<lambda>a j. push_bit 1 a OR of_bool (bit b (k - 1 - j))) acc [0..<k]
     = push_bit k acc OR take_bit k b" for b acc :: bit
proof (induction k arbitrary: b)
  case 0
  then show ?case by simp
next
  case (Suc k)
  have "foldl (\<lambda>a j. push_bit 1 a OR of_bool (bit b (Suc k - 1 - j))) acc [0..<k]
      = foldl (\<lambda>a j. push_bit 1 a OR of_bool (bit (drop_bit 1 b) (k - 1 - j))) acc [0..<k]"
  proof (rule foldl_cong [OF refl refl])
    fix a :: bit and j assume "j \<in> set [0..<k]"
    then have "Suc (k - 1 - j) = Suc k - 1 - j"
      by auto
    then have "bit b (Suc k - 1 - j) = bit (drop_bit 1 b) (k - 1 - j)"
      by (simp add: bit_simps)
    then show "push_bit 1 a OR of_bool (bit b (Suc k - 1 - j))
        = push_bit 1 a OR of_bool (bit (drop_bit 1 b) (k - 1 - j))"
      by (simp only:)
  qed
  also have "\<dots> = push_bit k acc OR take_bit k (drop_bit 1 b)"
    by (rule Suc.IH)
  finally have inner: "foldl (\<lambda>a j. push_bit 1 a OR of_bool (bit b (Suc k - 1 - j))) acc [0..<k]
      = push_bit k acc OR take_bit k (drop_bit 1 b)" .
  have "push_bit 1 (push_bit k acc OR take_bit k (drop_bit 1 b)) OR of_bool (bit b 0)
      = push_bit (Suc k) acc OR take_bit (Suc k) b"
  proof (rule bit_word_eqI)
    fix i assume "i < LENGTH(64)"
    then have i: "i < 64" by simp
    show "bit (push_bit 1 (push_bit k acc OR take_bit k (drop_bit 1 b)) OR of_bool (bit b 0)) i
        \<longleftrightarrow> bit (push_bit (Suc k) acc OR take_bit (Suc k) b) i"
    proof -
      have "bit (push_bit 1 (push_bit k acc OR take_bit k (drop_bit 1 b)) OR of_bool (bit b 0)) i
          \<longleftrightarrow> (if i = 0 then bit b 0
               else i < 64 \<and> bit (push_bit k acc OR take_bit k (drop_bit 1 b)) (i - 1))"
        by (rule bit_addRight)
      also have "\<dots> \<longleftrightarrow> bit (push_bit (Suc k) acc OR take_bit (Suc k) b) i"
      proof (cases i)
        case 0
        then show ?thesis
          by (simp only: bit_or_iff bit_push_bit_iff bit_take_bit_iff) simp
      next
        case (Suc m)
        then have "i - 1 = m" "i \<noteq> 0" "Suc k \<le> i \<longleftrightarrow> k \<le> m" "i < Suc k \<longleftrightarrow> m < k"
          "i - Suc k = m - k" "1 + m = i"
          by auto
        then show ?thesis
          using i
          by (simp only: bit_or_iff bit_push_bit_iff bit_take_bit_iff bit_drop_bit_eq)
            (auto dest: bit_imp_le_length)
      qed
      finally show ?thesis .
    qed
  qed
  with inner show ?case
    by (simp only: upt_Suc_append [OF le0] foldl_append foldl.simps diff_Suc_1 diff_self_eq_0)
qed

lemma toStringBin_round_trip_with_room:
  assumes "64 < length s"
  shows "(toStringBinMSB_in s b \<bind> Bit_fromStringMSB) = Some b"
    and "(Bit_reverse b \<bind> toStringBinMSB_in s \<bind> Bit_fromStringLSB) = Some b"
proof -
  define s' where "s' = s[64 := Some (CHR 0x00)]"
  have st: "store s 64 (CHR 0x00) = Some s'"
    using assms by (simp add: store_def s'_def)
  have dr: "drop 64 s' = Some (CHR 0x00) # drop 65 s"
    unfolding s'_def using drop_store [OF assms, of "Some (CHR 0x00)"] by simp
  have len: "64 \<le> length s'"
    using assms by (simp add: s'_def)
  have rt: "(toStringBinMSB_in s x \<bind> Bit_fromStringMSB) = Some x" for x
  proof -
    have "toStringBinMSB_in s x =
        Some (map (\<lambda>j. Some (if bit x (64 - 1 - j) then CHR ''1'' else CHR ''0'')) [0..<64]
              @ Some (CHR 0x00) # drop 65 s)"
      using toStringBin_loop_Some [OF len, of x] st
      by (simp add: toStringBinMSB_in_def BIT_SIZE_def dr)
    moreover have "foldl (\<lambda>a j. push_bit 1 a OR of_bool (bit x (64 - 1 - j))) 0 [0..<64] = x"
    proof -
      have "take_bit 64 x = x"
        by (rule bit_word_eqI) (simp add: bit_simps)
      then show ?thesis
        by (simp only: foldl_bits) simp
    qed
    ultimately show ?thesis
      by (simp only: bind.bind_lunit Bit_fromStringMSB_def fromStringMSB_loop_digits)
  qed
  from rt show "(toStringBinMSB_in s b \<bind> Bit_fromStringMSB) = Some b" .
  have "(toStringBinMSB_in s (word_reverse b) \<bind> Bit_fromStringLSB)
      = (toStringBinMSB_in s (word_reverse b) \<bind> Bit_fromStringMSB) \<bind> Bit_reverse"
    by (simp add: Bit_fromStringLSB_def [abs_def])
  also have "\<dots> = Some b"
    by (simp only: rt) (simp add: reverse_Some)
  finally show "(Bit_reverse b \<bind> toStringBinMSB_in s \<bind> Bit_fromStringLSB) = Some b"
    by (simp add: reverse_Some)
qed

text \<open>
  Claim C4 says that \<open>Bit_fromStringLSB\<close> puts the first recognised character at the
  least significant bit, so that \<open>fromStringLSB("101") = 5\<close>. The code reverses all 64
  bits of the value parsed most-significant-first, which moves the three characters to
  the top of the register.
\<close>

theorem fromStringLSB_short_string:
  "Bit_fromStringLSB (literal ''101'') = Some 0xA000000000000000
   \<and> Bit_fromStringLSB (literal ''101'') \<noteq> Some 5"
proof -
  have "Bit_fromStringMSB (literal ''101'') = Some 5"
    by (simp add: Bit_fromStringMSB_def literal_def addRight_Some)
  moreover have "Bit_reverse 5 = Some 0xA000000000000000"
    by code_simp
  ultimately show ?thesis
    by (simp add: Bit_fromStringLSB_def)
qed

text \<open>
  Claim C9 says that \<open>Bit_printHex\<close> writes \<open>0x\<close>, then 16 upper-case hexadecimal digits.
  The format \<^verbatim>\<open>%#018llX\<close> writes no prefix at all for the value 0 (18 zeros instead)
  and the upper-case prefix \<open>0X\<close> for every other value.
\<close>

theorem printHex_prefix:
  "Bit_printHex 0 [] = ''000000000000000000''
   \<and> Bit_printHex 0xFF [] = ''0X00000000000000FF''
   \<and> Bit_printHex 0xFFFFFFFFFFFFFFFF [] = ''0XFFFFFFFFFFFFFFFF''"
  proof -
  have "replicate 17 (CHR ''0'') = ''00000000000000000''"
    and "replicate 14 (CHR ''0'') = ''00000000000000''"
    by (simp_all add: eval_nat_numeral)
  then show ?thesis
    by (simp add: Bit_printHex_def printf_alt_zero_18_llX_def hex_digit_def)
qed

text \<open>
  The shape of the output for every register: 18 characters; \<open>0X\<close> in front when the
  register is not zero; 18 zeros when it is.
\<close>

lemma hex_upper_length: "0 < k \<Longrightarrow> n < 16 ^ k \<Longrightarrow> length (hex_upper n) \<le> k"
proof (induction k arbitrary: n)
  case 0
  then show ?case by simp
next
  case (Suc k)
  show ?case
  proof (cases "n < 16")
    case True
    then show ?thesis
      by (subst hex_upper.simps) simp
  next
    case False
    with Suc.prems have "0 < k"
      by (cases k) simp_all
    moreover from Suc.prems have "n div 16 < 16 ^ k"
      by (simp add: less_mult_imp_div_less mult.commute)
    ultimately have "length (hex_upper (n div 16)) \<le> k"
      by (rule Suc.IH)
    with False show ?thesis
      by (subst hex_upper.simps) simp
  qed
qed

lemma printHex_shape:
  "length (Bit_printHex b []) = 18"
  "b \<noteq> 0 \<Longrightarrow> take 2 (Bit_printHex b []) = ''0X''"
  "b = 0 \<Longrightarrow> Bit_printHex b [] = replicate 18 (CHR ''0'')"
proof -
  have "unat b < 2 ^ 64"
    using unsigned_less [of b] by simp
  then have "unat b < 16 ^ 16"
    by simp
  then have len: "length (hex_upper (unat b)) \<le> 16"
    by (intro hex_upper_length) simp_all
  show "length (Bit_printHex b []) = 18"
  proof (cases "b = 0")
    case True
    then show ?thesis
      by (simp add: Bit_printHex_def printf_alt_zero_18_llX_def)
  next
    case False
    with len show ?thesis
      by (simp add: Bit_printHex_def printf_alt_zero_18_llX_def Let_def del: hex_upper.simps)
  qed
  show "take 2 (Bit_printHex b []) = ''0X''" if "b \<noteq> 0"
    using that by (simp add: Bit_printHex_def printf_alt_zero_18_llX_def Let_def del: hex_upper.simps)
  have "replicate 18 (CHR ''0'') = CHR ''0'' # replicate 17 (CHR ''0'')"
    by (simp add: eval_nat_numeral)
  then show "Bit_printHex b [] = replicate 18 (CHR ''0'')" if "b = 0"
    using that
    by (simp add: Bit_printHex_def printf_alt_zero_18_llX_def hex_digit_def replicate_append_same)
qed

end
